theory Spec2Isabelle
  imports Main "HOL-Library.Sublist"
begin

section \<open>Text primitives\<close>

text \<open>
  A Python \<open>str\<close> is modelled as a \<open>string\<close> whose characters are the code points
  0..255. The character classes below are those of Python's \<open>str.strip()\<close> and of the
  \<open>re\<close> module on \<open>str\<close> patterns, restricted to that range.
\<close>

definition nl :: char where
  "nl = CHR 0x0A"

definition is_space :: "char \<Rightarrow> bool" where
  "is_space c = (let n = (of_char c :: nat) in
     (9 \<le> n \<and> n \<le> 13) \<or> (28 \<le> n \<and> n \<le> 32) \<or> n = 133 \<or> n = 160)"

definition is_digit :: "char \<Rightarrow> bool" where
  "is_digit c = (let n = (of_char c :: nat) in 48 \<le> n \<and> n \<le> 57)"

definition is_upper_az :: "char \<Rightarrow> bool" where
  "is_upper_az c = (let n = (of_char c :: nat) in 65 \<le> n \<and> n \<le> 90)"

definition is_word :: "char \<Rightarrow> bool" where
  "is_word c = (let n = (of_char c :: nat) in
     (48 \<le> n \<and> n \<le> 57) \<or> (65 \<le> n \<and> n \<le> 90) \<or> (97 \<le> n \<and> n \<le> 122) \<or> n = 95 \<or>
     n = 170 \<or> n = 178 \<or> n = 179 \<or> n = 181 \<or> n = 185 \<or> n = 186 \<or>
     (188 \<le> n \<and> n \<le> 190) \<or> (192 \<le> n \<and> n \<le> 214) \<or> (216 \<le> n \<and> n \<le> 246) \<or>
     (248 \<le> n \<and> n \<le> 255))"

definition lower_char :: "char \<Rightarrow> char" where
  "lower_char c = (let n = (of_char c :: nat) in
     if (65 \<le> n \<and> n \<le> 90) \<or> (192 \<le> n \<and> n \<le> 214) \<or> (216 \<le> n \<and> n \<le> 222)
     then char_of (n + 32) else c)"

definition lower :: "string \<Rightarrow> string" where
  "lower s = map lower_char s"

definition strip :: "string \<Rightarrow> string" where
  "strip s = rev (dropWhile is_space (rev (dropWhile is_space s)))"

definition startswith :: "string \<Rightarrow> string \<Rightarrow> bool" where
  "startswith p s = (take (length p) s = p)"

fun contains :: "string \<Rightarrow> string \<Rightarrow> bool" where
  "contains p [] = (p = [])"
| "contains p (c # cs) = (startswith p (c # cs) \<or> contains p cs)"

fun cons_first :: "char \<Rightarrow> string list \<Rightarrow> string list" where
  "cons_first c [] = [[c]]"
| "cons_first c (l # ls) = (c # l) # ls"

text \<open>\<open>s.split('\n')\<close>\<close>

fun split_lines :: "string \<Rightarrow> string list" where
  "split_lines [] = [[]]"
| "split_lines (c # cs) = (if c = nl then [] # split_lines cs else cons_first c (split_lines cs))"

text \<open>\<open>s.split('\n\n')\<close>\<close>

fun split_paras :: "string \<Rightarrow> string list" where
  "split_paras (a # b # cs) =
     (if a = nl \<and> b = nl then [] # split_paras cs else cons_first a (split_paras (b # cs)))"
| "split_paras cs = [cs]"

text \<open>\<open>'\n'.join(xs)\<close>\<close>

fun join_nl :: "string list \<Rightarrow> string" where
  "join_nl [] = []"
| "join_nl [x] = x"
| "join_nl (x # y # ys) = x @ nl # join_nl (y # ys)"

section \<open>The regular-expression calls\<close>

text \<open>
  A matcher stands for one compiled pattern: given the character before the current
  position (\<open>None\<close> at the start of the text) and the text from the current position on,
  it returns the length of the match that starts here, if there is one. No pattern of
  the program matches the empty string, so a length of zero is read as no match.

  \<open>re_scan\<close> is the left-to-right search shared by \<open>re.findall\<close>, \<open>re.split\<close> and
  \<open>re.sub\<close>: the non-overlapping matches, each with the unmatched text before it, and
  the unmatched text after the last match.
\<close>

type_synonym matcher = "char option \<Rightarrow> string \<Rightarrow> nat option"

fun push_char :: "char \<Rightarrow> (string \<times> string) list \<times> string \<Rightarrow> (string \<times> string) list \<times> string" where
  "push_char c ([], t) = ([], c # t)"
| "push_char c ((u, d) # ps, t) = ((c # u, d) # ps, t)"

function re_scan :: "matcher \<Rightarrow> char option \<Rightarrow> string \<Rightarrow> (string \<times> string) list \<times> string" where
  "re_scan m prev [] = ([], [])"
| "re_scan m prev (c # cs) =
     (case m prev (c # cs) of
        None \<Rightarrow> push_char c (re_scan m (Some c) cs)
      | Some 0 \<Rightarrow> push_char c (re_scan m (Some c) cs)
      | Some (Suc k) \<Rightarrow>
          (case re_scan m (Some (last (take (Suc k) (c # cs)))) (drop k cs) of
             (ps, t) \<Rightarrow> (([], take (Suc k) (c # cs)) # ps, t)))"
  by pat_completeness auto
termination
  by (relation "measure (\<lambda>(m, prev, s). length s)") auto

definition re_findall :: "matcher \<Rightarrow> string \<Rightarrow> string list" where
  "re_findall m s = map snd (fst (re_scan m None s))"

text \<open>\<open>re.split\<close> with a pattern that has no capture group.\<close>

definition re_split :: "matcher \<Rightarrow> string \<Rightarrow> string list" where
  "re_split m s = map fst (fst (re_scan m None s)) @ [snd (re_scan m None s)]"

text \<open>\<open>re.split\<close> with a pattern whose single capture group spans the whole match:
  the delimiters are returned between the pieces.\<close>

definition re_split_group :: "matcher \<Rightarrow> string \<Rightarrow> string list" where
  "re_split_group m s =
     concat (map (\<lambda>(u, d). [u, d]) (fst (re_scan m None s))) @ [snd (re_scan m None s)]"

text \<open>\<open>re.sub(pattern, '', s)\<close>\<close>

definition re_sub_del :: "matcher \<Rightarrow> string \<Rightarrow> string" where
  "re_sub_del m s = concat (map fst (fst (re_scan m None s))) @ snd (re_scan m None s)"

definition at_line_start :: "char option \<Rightarrow> bool" where
  "at_line_start prev = (prev = None \<or> prev = Some nl)"

definition rest_of_line :: "string \<Rightarrow> string" where
  "rest_of_line s = takeWhile (\<lambda>c. c \<noteq> nl) s"

section \<open>SemanticChunker\<close>

text \<open>The three alternatives of
  \<open>(?m)^(#{1,6}\s+.*|^\d+\.\s+.*|^[A-Z][A-Z\s]+:)\<close>, each giving the match length.\<close>

definition md_header_len :: "string \<Rightarrow> nat option" where
  "md_header_len s =
     (let h = takeWhile (\<lambda>c. c = CHR ''#'') s;
          r1 = drop (length h) s;
          w = takeWhile is_space r1;
          r2 = drop (length w) r1
      in if 1 \<le> length h \<and> length h \<le> 6 \<and> w \<noteq> []
         then Some (length h + length w + length (rest_of_line r2)) else None)"

definition numbered_len :: "string \<Rightarrow> nat option" where
  "numbered_len s =
     (let d = takeWhile is_digit s;
          r1 = drop (length d) s;
          w = takeWhile is_space (drop 1 r1);
          r2 = drop (length w) (drop 1 r1)
      in if d \<noteq> [] \<and> startswith ''.'' r1 \<and> w \<noteq> []
         then Some (length d + 1 + length w + length (rest_of_line r2)) else None)"

definition caps_label_len :: "string \<Rightarrow> nat option" where
  "caps_label_len s =
     (case s of
        [] \<Rightarrow> None
      | c # cs \<Rightarrow>
          (let run = takeWhile (\<lambda>x. is_upper_az x \<or> is_space x) cs
           in if is_upper_az c \<and> run \<noteq> [] \<and> startswith '':'' (drop (length run) cs)
              then Some (1 + length run + 1) else None))"

definition section_matcher :: matcher where
  "section_matcher prev s =
     (if at_line_start prev then
        (case md_header_len s of
           Some n \<Rightarrow> Some n
         | None \<Rightarrow> (case numbered_len s of Some n \<Rightarrow> Some n | None \<Rightarrow> caps_label_len s))
      else None)"

text \<open>The loop of \<open>_split_by_sections\<close> over \<open>range(0, len(sections), 2)\<close>.\<close>

fun combine_pairs :: "string list \<Rightarrow> string list" where
  "combine_pairs (a # b # xs) = (a @ b) # combine_pairs xs"
| "combine_pairs [a] = [a]"
| "combine_pairs [] = []"

definition split_by_sections :: "string \<Rightarrow> string list" where
  "split_by_sections content = combine_pairs (re_split_group section_matcher content)"

text \<open>\<open>(?<=[.!?])\s+\<close>\<close>

definition sentence_matcher :: matcher where
  "sentence_matcher prev s =
     (if prev = Some CHR ''.'' \<or> prev = Some CHR ''!'' \<or> prev = Some CHR ''?'' then
        (let w = takeWhile is_space s in if w \<noteq> [] then Some (length w) else None)
      else None)"

text \<open>
  The tokenizer is the external \<open>tiktoken\<close> encoding; the chunkers only use the length
  of its output, so it is a parameter \<open>tok\<close> giving the token count of a text.
  \<open>max_tokens\<close> is a Python \<open>int\<close>.

  The packing loop of \<open>_split_by_sentences\<close>, with its two variables \<open>chunks\<close> and
  \<open>current_chunk\<close>.
\<close>

fun pack_sentences :: "(string \<Rightarrow> nat) \<Rightarrow> int \<Rightarrow> string list \<Rightarrow> string \<Rightarrow> string list \<Rightarrow> string list" where
  "pack_sentences tok mx chunks cur [] = (if cur \<noteq> [] then chunks @ [cur] else chunks)"
| "pack_sentences tok mx chunks cur (s # ss) =
     (let test_chunk = (if cur \<noteq> [] then cur @ '' '' @ s else s)
      in if int (tok test_chunk) \<le> mx then pack_sentences tok mx chunks test_chunk ss
         else pack_sentences tok mx (if cur \<noteq> [] then chunks @ [cur] else chunks) s ss)"

definition split_by_sentences :: "(string \<Rightarrow> nat) \<Rightarrow> int \<Rightarrow> string \<Rightarrow> string list" where
  "split_by_sentences tok mx content = pack_sentences tok mx [] [] (re_split sentence_matcher content)"

datatype DocumentType =
  TECHNICAL_DOC | SUPPORT_TICKET | API_REFERENCE | POLICY | TUTORIAL | CODE | UNKNOWN

datatype ChunkingStrategy = SEMANTIC | CODE_AWARE | HIERARCHICAL | FIXED_SIZE

text \<open>The final comprehension of both \<open>SemanticChunker.chunk\<close> and
  \<open>CodeAwareChunker.chunk\<close>.\<close>

definition strip_nonempty :: "string list \<Rightarrow> string list" where
  "strip_nonempty chunks = map strip (filter (\<lambda>c. strip c \<noteq> []) chunks)"

definition semantic_sections :: "(string \<Rightarrow> nat) \<Rightarrow> int \<Rightarrow> string list \<Rightarrow> string list" where
  "semantic_sections tok mx sections =
     concat (map (\<lambda>sec. if int (tok sec) \<le> mx then [sec] else split_by_sentences tok mx sec) sections)"

definition Semantic_chunk :: "(string \<Rightarrow> nat) \<Rightarrow> int \<Rightarrow> string \<Rightarrow> DocumentType \<Rightarrow> string list" where
  "Semantic_chunk tok mx content doc_type =
     strip_nonempty (semantic_sections tok mx (split_by_sections content))"

section \<open>CodeAwareChunker\<close>

definition fence :: string where
  "fence = [CHR 0x60, CHR 0x60, CHR 0x60]"

text \<open>Offset of the first fence in a text.\<close>

fun find_fence :: "string \<Rightarrow> nat option" where
  "find_fence [] = None"
| "find_fence (c # cs) =
     (if startswith fence (c # cs) then Some 0 else map_option Suc (find_fence cs))"

text \<open>A fence, the shortest text after it (\<open>[\s\S]*?\<close>), and the closing fence.\<close>

definition fence_matcher :: matcher where
  "fence_matcher prev s =
     (if startswith fence s then
        (case find_fence (drop 3 s) of Some k \<Rightarrow> Some (3 + k + 3) | None \<Rightarrow> None)
      else None)"

definition extract_code_blocks :: "string \<Rightarrow> string list" where
  "extract_code_blocks content = re_findall fence_matcher content"

text \<open>The pattern of \<open>re.sub\<close> in \<open>_split_code_block\<close>, under \<open>re.MULTILINE\<close>: an
  opening fence line with its newline, or a fence at the end of a line.\<close>

definition fence_marker_matcher :: matcher where
  "fence_marker_matcher prev s =
     (let r = drop 3 s in
      if at_line_start prev \<and> startswith fence s \<and> length (rest_of_line r) < length r
      then Some (3 + length (rest_of_line r) + 1)
      else if startswith fence s \<and> (r = [] \<or> startswith [nl] r) then Some 3
      else None)"

text \<open>The four declaration patterns \<open>(?m)^KW\s+\w+.*?(?=^KW\s+|\Z)\<close> under
  \<open>re.DOTALL\<close>, for the keywords def, class, function and public.\<close>

definition decl_start :: "string \<Rightarrow> string \<Rightarrow> bool" where
  "decl_start kw s =
     (startswith kw s \<and> (case drop (length kw) s of [] \<Rightarrow> False | c # _ \<Rightarrow> is_space c))"

fun lazy_until :: "string \<Rightarrow> char option \<Rightarrow> string \<Rightarrow> nat" where
  "lazy_until kw prev [] = 0"
| "lazy_until kw prev (c # cs) =
     (if at_line_start prev \<and> decl_start kw (c # cs) then 0
      else Suc (lazy_until kw (Some c) cs))"

definition decl_matcher :: "string \<Rightarrow> matcher" where
  "decl_matcher kw prev s =
     (let r1 = drop (length kw) s;
          w = takeWhile is_space r1;
          r2 = drop (length w) r1;
          name = takeWhile is_word r2;
          r3 = drop (length name) r2
      in if at_line_start prev \<and> startswith kw s \<and> w \<noteq> [] \<and> name \<noteq> []
         then Some (length kw + length w + length name + lazy_until kw (Some (last name)) r3)
         else None)"

text \<open>The loop over the patterns: the matches of the first pattern that has any.\<close>

fun first_matches :: "string list \<Rightarrow> string \<Rightarrow> string list" where
  "first_matches [] code_content = []"
| "first_matches (kw # kws) code_content =
     (let matches = re_findall (decl_matcher kw) code_content
      in if matches \<noteq> [] then matches else first_matches kws code_content)"

definition wrap_fence :: "string \<Rightarrow> string" where
  "wrap_fence chunk = fence @ [nl] @ chunk @ [nl] @ fence"

fun pack_lines :: "(string \<Rightarrow> nat) \<Rightarrow> int \<Rightarrow> string list \<Rightarrow> string \<Rightarrow> string list \<Rightarrow> string list" where
  "pack_lines tok mx chunks cur [] = (if cur \<noteq> [] then chunks @ [wrap_fence cur] else chunks)"
| "pack_lines tok mx chunks cur (line # ls) =
     (let test_chunk = (if cur \<noteq> [] then cur @ [nl] @ line else line)
      in if int (tok test_chunk) \<le> mx then pack_lines tok mx chunks test_chunk ls
         else pack_lines tok mx (if cur \<noteq> [] then chunks @ [wrap_fence cur] else chunks) line ls)"

definition split_code_block :: "(string \<Rightarrow> nat) \<Rightarrow> int \<Rightarrow> string \<Rightarrow> string list" where
  "split_code_block tok mx code_block =
     (let code_content = re_sub_del fence_marker_matcher code_block;
          chunks = first_matches [''def'', ''class'', ''function'', ''public''] code_content
      in if chunks = [] then pack_lines tok mx [] [] (split_lines code_content)
         else map wrap_fence chunks)"

definition semantic_split :: "(string \<Rightarrow> nat) \<Rightarrow> int \<Rightarrow> string \<Rightarrow> string list" where
  "semantic_split tok mx content = Semantic_chunk tok mx content TECHNICAL_DOC"

text \<open>The loop of \<open>CodeAwareChunker.chunk\<close> over \<open>enumerate(parts)\<close>.\<close>

fun walk_parts :: "(string \<Rightarrow> nat) \<Rightarrow> int \<Rightarrow> string list \<Rightarrow> nat \<Rightarrow> string list \<Rightarrow> string list" where
  "walk_parts tok mx code_blocks i [] = []"
| "walk_parts tok mx code_blocks i (part # parts) =
     (if strip part \<noteq> [] then semantic_split tok mx part else []) @
     (if i < length code_blocks then
        (let code_chunk = code_blocks ! i
         in if int (tok code_chunk) \<le> mx then [code_chunk]
            else split_code_block tok mx code_chunk)
      else []) @
     walk_parts tok mx code_blocks (Suc i) parts"

definition CodeAware_chunk :: "(string \<Rightarrow> nat) \<Rightarrow> int \<Rightarrow> string \<Rightarrow> DocumentType \<Rightarrow> string list" where
  "CodeAware_chunk tok mx content doc_type =
     strip_nonempty
       (walk_parts tok mx (extract_code_blocks content) 0 (re_split fence_matcher content))"

text \<open>
  The documents on which the code-aware chunker has nothing to return: all the text
  outside the fenced blocks is blank, and every fenced block is over the budget and,
  without its fence markers, has only empty lines.
\<close>

definition blank_lines_only :: "string \<Rightarrow> bool" where
  "blank_lines_only code_block =
     list_all (\<lambda>l. l = []) (split_lines (re_sub_del fence_marker_matcher code_block))"

definition blank_code_only :: "(string \<Rightarrow> nat) \<Rightarrow> int \<Rightarrow> string \<Rightarrow> bool" where
  "blank_code_only tok mx content =
     (list_all (\<lambda>part. strip part = []) (re_split fence_matcher content) \<and>
      list_all (\<lambda>b. \<not> int (tok b) \<le> mx \<and> blank_lines_only b) (extract_code_blocks content))"

section \<open>HierarchicalChunker\<close>

record doc_section =
  sec_level :: nat
  sec_title :: string
  sec_content :: "string list"

text \<open>
  \<open>re.match(r'^(#{1,6})\s+(.+)$', line)\<close>, giving the level and the title. It is only
  applied to a stripped line without newline, so the text after the blanks, when there
  is a blank, is not empty and runs to the end of the line.
\<close>

definition header_match :: "string \<Rightarrow> (nat \<times> string) option" where
  "header_match line =
     (let h = takeWhile (\<lambda>c. c = CHR ''#'') line;
          r1 = drop (length h) line;
          w = takeWhile is_space r1;
          r2 = drop (length w) r1
      in if 1 \<le> length h \<and> length h \<le> 6 \<and> w \<noteq> [] \<and> r2 \<noteq> [] then Some (length h, r2)
         else None)"

definition introduction :: doc_section where
  "introduction = \<lparr>sec_level = 0, sec_title = ''Introduction'', sec_content = []\<rparr>"

definition append_line :: "string \<Rightarrow> doc_section \<Rightarrow> doc_section" where
  "append_line line sec = sec\<lparr>sec_content := sec_content sec @ [line]\<rparr>"

text \<open>The loop of \<open>_parse_structure\<close>, with \<open>structure\<close> (here \<open>struct\<close>) and \<open>current_section\<close>.\<close>

fun parse_lines :: "doc_section list \<Rightarrow> doc_section option \<Rightarrow> string list \<Rightarrow> doc_section list" where
  "parse_lines struct cur [] =
     (case cur of Some c \<Rightarrow> struct @ [c] | None \<Rightarrow> struct)"
| "parse_lines struct cur (raw # ls) =
     (let line = strip raw in
      if line = [] then parse_lines struct cur ls
      else
        (case header_match line of
           Some (lvl, ttl) \<Rightarrow>
             parse_lines (case cur of Some c \<Rightarrow> struct @ [c] | None \<Rightarrow> struct)
               (Some \<lparr>sec_level = lvl, sec_title = ttl, sec_content = []\<rparr>) ls
         | None \<Rightarrow>
             (case cur of
                Some c \<Rightarrow> parse_lines struct (Some (append_line line c)) ls
              | None \<Rightarrow>
                  (let struct' =
                     (if struct = [] \<or> sec_level (last struct) \<noteq> 0
                      then struct @ [introduction] else struct)
                   in parse_lines (butlast struct' @ [append_line line (last struct')])
                        None ls))))"

definition parse_structure :: "string \<Rightarrow> doc_section list" where
  "parse_structure content = parse_lines [] None (split_lines content)"

definition title_prefix :: "string \<Rightarrow> string" where
  "title_prefix title = ''# '' @ title @ [nl, nl]"

text \<open>The paragraph loop of \<open>_chunk_section\<close>.\<close>

fun pack_paras :: "(string \<Rightarrow> nat) \<Rightarrow> int \<Rightarrow> string \<Rightarrow> string list \<Rightarrow> string \<Rightarrow> string list \<Rightarrow> string list" where
  "pack_paras tok mx pre chunks cur [] = (if cur \<noteq> pre then chunks @ [strip cur] else chunks)"
| "pack_paras tok mx pre chunks cur (part # ps) =
     (let test_chunk = cur @ part @ [nl, nl]
      in if int (tok test_chunk) \<le> mx then pack_paras tok mx pre chunks test_chunk ps
         else pack_paras tok mx pre (if cur \<noteq> pre then chunks @ [strip cur] else chunks)
                (pre @ part @ [nl, nl]) ps)"

definition chunk_section :: "(string \<Rightarrow> nat) \<Rightarrow> int \<Rightarrow> doc_section \<Rightarrow> string list" where
  "chunk_section tok mx sec =
     (let title = sec_title sec;
          content = join_nl (sec_content sec);
          full_content = title_prefix title @ content
      in if int (tok full_content) \<le> mx then [full_content]
         else pack_paras tok mx (title_prefix title) [] (title_prefix title) (split_paras content))"

definition Hierarchical_chunk :: "(string \<Rightarrow> nat) \<Rightarrow> int \<Rightarrow> string \<Rightarrow> DocumentType \<Rightarrow> string list" where
  "Hierarchical_chunk tok mx content doc_type =
     concat (map (chunk_section tok mx) (parse_structure content))"

section \<open>DocumentClassifier\<close>

text \<open>
  Every pattern of the classifier is \<open>(?i)\b(w1|...|wn)\b\<close>, but for one that is
  \<open>(?i)\b(get|post|put|delete|patch)\s+/\<close>. A pattern is kept as its list of
  alternatives, written in lower case, and the kind of its end.
\<close>

datatype pattern = Words "string list" | WordsSlash "string list"

definition word_boundary :: "char option \<Rightarrow> string \<Rightarrow> bool" where
  "word_boundary prev s =
     ((case prev of None \<Rightarrow> False | Some c \<Rightarrow> is_word c) \<noteq>
      (case s of [] \<Rightarrow> False | c # _ \<Rightarrow> is_word c))"

definition istartswith :: "string \<Rightarrow> string \<Rightarrow> bool" where
  "istartswith w s = (length w \<le> length s \<and> lower (take (length w) s) = w)"

text \<open>What follows the alternation: \<open>\b\<close>, or \<open>\s+/\<close>; the length it matches.\<close>

definition end_boundary :: "char option \<Rightarrow> string \<Rightarrow> nat option" where
  "end_boundary prev s = (if word_boundary prev s then Some 0 else None)"

definition spaces_slash :: "char option \<Rightarrow> string \<Rightarrow> nat option" where
  "spaces_slash prev s =
     (let w = takeWhile is_space s
      in if w \<noteq> [] \<and> startswith ''/'' (drop (length w) s) then Some (length w + 1) else None)"

text \<open>The alternatives are tried in order; the first one that matches and lets the rest
  of the pattern match is taken.\<close>

fun first_alternative :: "(char option \<Rightarrow> string \<Rightarrow> nat option) \<Rightarrow> string list \<Rightarrow> string \<Rightarrow> nat option" where
  "first_alternative k [] s = None"
| "first_alternative k (w # ws) s =
     (if w \<noteq> [] \<and> istartswith w s then
        (case k (Some (last (take (length w) s))) (drop (length w) s) of
           Some n \<Rightarrow> Some (length w + n)
         | None \<Rightarrow> first_alternative k ws s)
      else first_alternative k ws s)"

fun pattern_matcher :: "pattern \<Rightarrow> matcher" where
  "pattern_matcher (Words ws) prev s =
     (if word_boundary prev s then first_alternative end_boundary ws s else None)"
| "pattern_matcher (WordsSlash ws) prev s =
     (if word_boundary prev s then first_alternative spaces_slash ws s else None)"

text \<open>\<open>self.patterns\<close>, in the order of the dictionary.\<close>

definition patterns :: "(DocumentType \<times> pattern list) list" where
  "patterns =
    [(API_REFERENCE,
       [Words [''endpoint'', ''api'', ''rest'', ''graphql'', ''request'', ''response'', ''parameter''],
        WordsSlash [''get'', ''post'', ''put'', ''delete'', ''patch''],
        Words [''json'', ''xml'', ''swagger'', ''openapi''],
        Words [''authentication'', ''authorization'', ''token'']]),
     (TECHNICAL_DOC,
       [Words [''architecture'', ''design'', ''implementation'', ''configuration''],
        Words [''system'', ''component'', ''module'', ''service''],
        Words [''requirements'', ''specifications'', ''technical'']]),
     (SUPPORT_TICKET,
       [Words [''issue'', ''problem'', ''bug'', ''error'', ''ticket''],
        Words [''reproduce'', ''steps'', ''workaround'', ''solution''],
        Words [''customer'', ''user'', ''reported'', ''priority'']]),
     (POLICY,
       [Words [''policy'', ''procedure'', ''guideline'', ''compliance''],
        Words [''must'', ''shall'', ''should'', ''required'', ''mandatory''],
        Words [''approval'', ''review'', ''governance'', ''standard'']]),
     (TUTORIAL,
       [Words [''tutorial'', ''guide'', ''how-to'', ''step-by-step''],
        Words [''example'', ''demo'', ''walkthrough'', ''getting started''],
        Words [''learn'', ''install'', ''setup'', ''configure'']]),
     (CODE,
       [Words [''function'', ''class'', ''method'', ''variable'', ''import''],
        Words [''def'', ''class'', ''if'', ''else'', ''for'', ''while'', ''return''],
        Words [''javascript'', ''python'', ''java'', ''c++'', ''sql'']])]"

text \<open>The inner loop: the sum over the patterns of \<open>len(re.findall(pattern, content))\<close>.\<close>

definition score :: "pattern list \<Rightarrow> string \<Rightarrow> nat" where
  "score ps content = sum_list (map (\<lambda>p. length (re_findall (pattern_matcher p) content)) ps)"

definition scores :: "string \<Rightarrow> (DocumentType \<times> nat) list" where
  "scores content = map (\<lambda>(doc_type, ps). (doc_type, score ps content)) patterns"

text \<open>\<open>max(scores, key=scores.get)\<close>: Python keeps the first of the entries with the
  largest key, in the order of iteration; the dictionary is never empty.\<close>

fun max_from :: "(DocumentType \<times> nat) \<Rightarrow> (DocumentType \<times> nat) list \<Rightarrow> (DocumentType \<times> nat)" where
  "max_from best [] = best"
| "max_from best (x # xs) = max_from (if snd best < snd x then x else best) xs"

definition max_by_score :: "(DocumentType \<times> nat) list \<Rightarrow> (DocumentType \<times> nat)" where
  "max_by_score xs = max_from (hd xs) (tl xs)"

definition filename_rule :: "string \<Rightarrow> DocumentType option" where
  "filename_rule filename =
     (let filename_lower = lower filename in
      if list_ex (\<lambda>ext. contains ext filename_lower) [''.py'', ''.js'', ''.java'', ''.cpp'', ''.sql'']
      then Some CODE
      else if contains ''api'' filename_lower \<or> contains ''swagger'' filename_lower
      then Some API_REFERENCE
      else if contains ''policy'' filename_lower \<or> contains ''procedure'' filename_lower
      then Some POLICY
      else if contains ''tutorial'' filename_lower \<or> contains ''guide'' filename_lower
      then Some TUTORIAL
      else None)"

definition classify :: "string \<Rightarrow> string \<Rightarrow> DocumentType" where
  "classify content filename =
     (case filename_rule filename of
        Some t \<Rightarrow> t
      | None \<Rightarrow>
          (let best = max_by_score (scores content)
           in if snd best > 2 then fst best else UNKNOWN))"

section \<open>IntelligentChunker\<close>

fun DocumentType_value :: "DocumentType \<Rightarrow> string" where
  "DocumentType_value TECHNICAL_DOC = ''technical_doc''"
| "DocumentType_value SUPPORT_TICKET = ''support_ticket''"
| "DocumentType_value API_REFERENCE = ''api_reference''"
| "DocumentType_value POLICY = ''policy''"
| "DocumentType_value TUTORIAL = ''tutorial''"
| "DocumentType_value CODE = ''code''"
| "DocumentType_value UNKNOWN = ''unknown''"

fun ChunkingStrategy_value :: "ChunkingStrategy \<Rightarrow> string" where
  "ChunkingStrategy_value SEMANTIC = ''semantic''"
| "ChunkingStrategy_value CODE_AWARE = ''code_aware''"
| "ChunkingStrategy_value HIERARCHICAL = ''hierarchical''"
| "ChunkingStrategy_value FIXED_SIZE = ''fixed_size''"

fun strategy_map :: "DocumentType \<Rightarrow> ChunkingStrategy" where
  "strategy_map TECHNICAL_DOC = HIERARCHICAL"
| "strategy_map SUPPORT_TICKET = SEMANTIC"
| "strategy_map API_REFERENCE = CODE_AWARE"
| "strategy_map POLICY = HIERARCHICAL"
| "strategy_map TUTORIAL = HIERARCHICAL"
| "strategy_map CODE = CODE_AWARE"
| "strategy_map UNKNOWN = SEMANTIC"

text \<open>\<open>self.chunkers[strategy].chunk\<close>, each chunker with the budget it is built with.\<close>

fun chunkers :: "(string \<Rightarrow> nat) \<Rightarrow> ChunkingStrategy \<Rightarrow> string \<Rightarrow> DocumentType \<Rightarrow> string list" where
  "chunkers tok SEMANTIC = Semantic_chunk tok 512"
| "chunkers tok CODE_AWARE = CodeAware_chunk tok 512"
| "chunkers tok HIERARCHICAL = Hierarchical_chunk tok 512"
| "chunkers tok FIXED_SIZE = Semantic_chunk tok 256"

record ChunkMetadata =
  chunk_id :: string
  document_id :: string
  chunk_index :: nat
  document_type :: DocumentType
  strategy_used :: ChunkingStrategy
  token_count :: nat
  section_title :: "string option"
  code_language :: "string option"

text \<open>An entry of the result's \<open>metadata\<close> list.\<close>

record MetadataEntry =
  meta_chunk_id :: string
  meta_chunk_index :: nat
  meta_token_count :: nat
  meta_section_title :: "string option"

record ProcessingResult =
  result_document_id :: string
  result_document_type :: string
  chunking_strategy :: string
  chunks :: "string list"
  metadata :: "MetadataEntry list"
  total_chunks :: nat
  processing_timestamp :: string

text \<open>The decimal digits of an index, as the f-string writes it.\<close>

fun str_nat :: "nat \<Rightarrow> string" where
  "str_nat n = (if n < 10 then [char_of (48 + n)] else str_nat (n div 10) @ [char_of (48 + n mod 10)])"

fun first_title :: "string list \<Rightarrow> string option" where
  "first_title [] = None"
| "first_title (l # ls) =
     (let line = strip l in
      if startswith ''#'' line then Some (strip (dropWhile (\<lambda>c. c = CHR ''#'') line))
      else first_title ls)"

definition extract_section_title :: "string \<Rightarrow> string option" where
  "extract_section_title chunk = first_title (split_lines chunk)"

text \<open>
  \<open>process_document\<close>. The MD5 digest in hexadecimal and the clock are the outside
  world: \<open>md5_hex\<close> and \<open>now\<close>. \<open>doc_id\<close> is \<open>None\<close> or a string; \<open>not doc_id\<close> holds
  for \<open>None\<close> and for the empty string.
\<close>

definition process_document ::
  "(string \<Rightarrow> nat) \<Rightarrow> (string \<Rightarrow> string) \<Rightarrow> string \<Rightarrow> string \<Rightarrow> string \<Rightarrow> string option \<Rightarrow> ProcessingResult" where
  "process_document tok md5_hex now content filename doc_id =
     (let doc_id' = (case doc_id of
                       None \<Rightarrow> take 8 (md5_hex content)
                     | Some d \<Rightarrow> if d = [] then take 8 (md5_hex content) else d);
          doc_type = classify content filename;
          strategy = strategy_map doc_type;
          chunks' = chunkers tok strategy content doc_type;
          chunk_metadata =
            map (\<lambda>(i, chunk).
                  \<lparr>chunk_id = doc_id' @ ''_chunk_'' @ str_nat i,
                   document_id = doc_id',
                   chunk_index = i,
                   document_type = doc_type,
                   strategy_used = strategy,
                   token_count = tok chunk,
                   section_title = extract_section_title chunk,
                   code_language = None\<rparr>)
              (enumerate 0 chunks')
      in \<lparr>result_document_id = doc_id',
          result_document_type = DocumentType_value doc_type,
          chunking_strategy = ChunkingStrategy_value strategy,
          chunks = chunks',
          metadata =
            map (\<lambda>meta.
                  \<lparr>meta_chunk_id = chunk_id meta,
                   meta_chunk_index = chunk_index meta,
                   meta_token_count = token_count meta,
                   meta_section_title = section_title meta\<rparr>)
              chunk_metadata,
          total_chunks = length chunks',
          processing_timestamp = now\<rparr>)"

text \<open>A tokenizer with one token for each character, and a digest that is constant,
  to run the program on examples.\<close>

definition char_tokens :: "string \<Rightarrow> nat" where
  "char_tokens s = length s"

definition sample_md5 :: "string \<Rightarrow> string" where
  "sample_md5 s = ''d41d8cd98f00b204e9800998ecf8427e''"

section \<open>Properties of the search\<close>

lemma push_char_concat:
  "concat (map (\<lambda>(u, d). u @ d) (fst (push_char c r))) @ snd (push_char c r)
     = c # (concat (map (\<lambda>(u, d). u @ d) (fst r)) @ snd r)"
  by (cases "(c, r)" rule: push_char.cases) auto

lemma re_scan_concat:
  "concat (map (\<lambda>(u, d). u @ d) (fst (re_scan m prev s))) @ snd (re_scan m prev s) = s"
proof (induction m prev s rule: re_scan.induct)
  case (1 m prev)
  show ?case by simp
next
  case (2 m prev c cs)
  show ?case
  proof (cases "m prev (c # cs)")
    case None
    with 2(1) show ?thesis by (simp add: push_char_concat)
  next
    case (Some n)
    show ?thesis
    proof (cases n)
      case 0
      with Some 2(2) show ?thesis by (simp add: push_char_concat)
    next
      case (Suc k)
      from 2(3)[OF Some Suc]
      have ih: "concat (map (\<lambda>(u, d). u @ d)
                  (fst (re_scan m (Some (last (take (Suc k) (c # cs)))) (drop k cs))))
                @ snd (re_scan m (Some (last (take (Suc k) (c # cs)))) (drop k cs)) = drop k cs" .
      obtain ps t where r: "re_scan m (Some (last (take (Suc k) (c # cs)))) (drop k cs) = (ps, t)"
        by (cases "re_scan m (Some (last (take (Suc k) (c # cs)))) (drop k cs)")
      from ih r have "concat (map (\<lambda>(u, d). u @ d) ps) @ t = drop k cs" by simp
      with Some Suc r show ?thesis by simp
    qed
  qed
qed

lemma combine_pairs_concat: "concat (combine_pairs xs) = concat xs"
  by (induction xs rule: combine_pairs.induct) auto

lemma re_split_group_concat: "concat (re_split_group m s) = s"
proof -
  have "concat (concat (map (\<lambda>(u, d). [u, d]) ps)) = concat (map (\<lambda>(u, d). u @ d) ps)"
    for ps :: "(string \<times> string) list"
    by (induction ps) auto
  then show ?thesis
    using re_scan_concat [of m None s] by (simp add: re_split_group_def)
qed

section \<open>Empty content\<close>

lemma strip_Nil: "strip [] = []"
  by (simp add: strip_def)

lemma Semantic_chunk_empty: "Semantic_chunk tok mx [] dt = []"
  by (simp add: Semantic_chunk_def split_by_sections_def re_split_group_def semantic_sections_def
      split_by_sentences_def re_split_def strip_nonempty_def strip_Nil)

lemma CodeAware_chunk_empty: "CodeAware_chunk tok mx [] dt = []"
  by (simp add: CodeAware_chunk_def extract_code_blocks_def re_findall_def re_split_def
      strip_nonempty_def strip_Nil)

lemma Hierarchical_chunk_empty: "Hierarchical_chunk tok mx [] dt = []"
  by (simp add: Hierarchical_chunk_def parse_structure_def strip_Nil)

lemma chunkers_empty: "chunkers tok strategy [] dt = []"
  by (cases strategy)
    (simp_all add: Semantic_chunk_empty CodeAware_chunk_empty Hierarchical_chunk_empty)

section \<open>The first maximum\<close>





section \<open>The packing loops\<close>


lemma sublist_left: "sublist s c \<Longrightarrow> sublist s (c @ d)"
  by (auto simp: sublist_def) (metis append.assoc)

lemma sublist_right: "sublist s c \<Longrightarrow> sublist s (d @ c)"
  by (auto simp: sublist_def) (metis append.assoc)

lemma sublist_self_right: "sublist s (d @ s)"
  by (rule sublist_right) simp

lemma pack_sentences_keeps:
  assumes "(\<exists>c \<in> set acc. sublist s c) \<or> (cur \<noteq> [] \<and> sublist s cur) \<or> (s \<in> set ss \<and> s \<noteq> [])"
  shows "\<exists>c \<in> set (pack_sentences tok mx acc cur ss). sublist s c"
  using assms
proof (induction ss arbitrary: acc cur)
  case Nil
  then show ?case by auto
next
  case (Cons x ss)
  let ?test = "if cur \<noteq> [] then cur @ '' '' @ x else x"
  show ?case
  proof (cases "int (tok ?test) \<le> mx")
    case True
    have "(\<exists>c \<in> set acc. sublist s c) \<or> (?test \<noteq> [] \<and> sublist s ?test) \<or> (s \<in> set ss \<and> s \<noteq> [])"
      using Cons.prems sublist_left [of s cur "'' '' @ x"] sublist_self_right [of x "cur @ '' ''"]
      by auto
    from Cons.IH [OF this] True show ?thesis by (simp add: Let_def)
  next
    case False
    let ?acc = "if cur \<noteq> [] then acc @ [cur] else acc"
    have "(\<exists>c \<in> set ?acc. sublist s c) \<or> (x \<noteq> [] \<and> sublist s x) \<or> (s \<in> set ss \<and> s \<noteq> [])"
      using Cons.prems by auto
    from Cons.IH [OF this] False show ?thesis by (simp add: Let_def)
  qed
qed






lemma split_by_sentences_keeps:
  "\<forall>s \<in> set (re_split sentence_matcher passage).
     s \<noteq> [] \<longrightarrow> (\<exists>c \<in> set (split_by_sentences tok mx passage). sublist s c)"
  unfolding split_by_sentences_def by (auto intro: pack_sentences_keeps)







section \<open>Fenced blocks\<close>

lemma push_char_snd: "map snd (fst (push_char c r)) = map snd (fst r)"
  by (cases "(c, r)" rule: push_char.cases) auto

lemma re_scan_matches:
  "d \<in> snd ` set (fst (re_scan m prev s)) \<Longrightarrow> \<exists>prev' s' n. m prev' s' = Some n \<and> 0 < n \<and> d = take n s'"
proof (induction m prev s rule: re_scan.induct)
  case (1 m prev)
  then show ?case by simp
next
  case (2 m prev c cs)
  show ?case
  proof (cases "m prev (c # cs)")
    case None
    with 2(4) have "d \<in> set (map snd (fst (push_char c (re_scan m (Some c) cs))))" by simp
    then have "d \<in> snd ` set (fst (re_scan m (Some c) cs))" by (simp add: push_char_snd)
    with 2(1) [OF None] show ?thesis .
  next
    case (Some n)
    show ?thesis
    proof (cases n)
      case 0
      with Some 2(4) have "d \<in> set (map snd (fst (push_char c (re_scan m (Some c) cs))))" by simp
      then have "d \<in> snd ` set (fst (re_scan m (Some c) cs))" by (simp add: push_char_snd)
      with 2(2) [OF Some 0] show ?thesis .
    next
      case (Suc k)
      obtain ps t where r: "re_scan m (Some (last (take (Suc k) (c # cs)))) (drop k cs) = (ps, t)"
        by (cases "re_scan m (Some (last (take (Suc k) (c # cs)))) (drop k cs)")
      with Some Suc 2(4) have "d = take (Suc k) (c # cs) \<or> d \<in> snd ` set ps" by auto
      then show ?thesis
      proof
        assume "d = take (Suc k) (c # cs)"
        with Some Suc show ?thesis by blast
      next
        assume "d \<in> snd ` set ps"
        with r have "d \<in> snd ` set (fst (re_scan m (Some (last (take (Suc k) (c # cs)))) (drop k cs)))"
          by simp
        with 2(3) [OF Some Suc] show ?thesis .
      qed
    qed
  qed
qed

lemma length_fence: "length fence = 3"
  by (simp add: fence_def)

lemma find_fence_Some: "find_fence t = Some k \<Longrightarrow> take (k + 3) t = take k t @ fence"
proof (induction t arbitrary: k)
  case Nil
  then show ?case by simp
next
  case (Cons c cs)
  show ?case
  proof (cases "startswith fence (c # cs)")
    case True
    with Cons.prems have k: "k = 0" by simp
    from True have "take 3 (c # cs) = fence" unfolding startswith_def length_fence .
    with k show ?thesis by simp
  next
    case False
    with Cons.prems obtain j where j: "find_fence cs = Some j" and k: "k = Suc j" by auto
    have "take (k + 3) (c # cs) = take (Suc (j + 3)) (c # cs)" using k by simp
    also have "\<dots> = c # take (j + 3) cs" by (rule take_Suc_Cons)
    also have "\<dots> = c # (take j cs @ fence)" by (simp only: Cons.IH [OF j])
    also have "\<dots> = take k (c # cs) @ fence" using k by simp
    finally show ?thesis .
  qed
qed

lemma fence_matcher_Some:
  assumes "fence_matcher prev s = Some n"
  shows "\<exists>x. take n s = fence @ x @ fence"
proof -
  from assms have sw: "startswith fence s"
    by (auto simp: fence_matcher_def split: if_splits)
  with assms obtain k where k: "find_fence (drop 3 s) = Some k" and n: "n = 3 + k + 3"
    by (auto simp: fence_matcher_def split: option.splits)
  from sw have "take 3 s = fence" unfolding startswith_def length_fence .
  then have s: "s = fence @ drop 3 s" by (metis append_take_drop_id)
  have "take n s = take n (fence @ drop 3 s)" using s by simp
  also have "\<dots> = fence @ take (k + 3) (drop 3 s)" using n by (simp add: length_fence add.commute)
  also have "\<dots> = fence @ take k (drop 3 s) @ fence" using find_fence_Some [OF k] by simp
  finally show ?thesis by blast
qed

lemma not_space_backtick: "\<not> is_space (CHR 0x60)"
  by (simp add: is_space_def)

lemma strip_fenced: "strip (fence @ x @ fence) = fence @ x @ fence"
  by (simp add: strip_def fence_def not_space_backtick)

lemma code_block_fenced:
  assumes "b \<in> set (extract_code_blocks content)"
  shows "\<exists>x. b = fence @ x @ fence"
proof -
  from assms have "b \<in> snd ` set (fst (re_scan fence_matcher None content))"
    by (simp add: extract_code_blocks_def re_findall_def)
  from re_scan_matches [OF this] fence_matcher_Some show ?thesis by metis
qed

lemma code_block_strip:
  assumes "b \<in> set (extract_code_blocks content)"
  shows "strip b = b \<and> b \<noteq> []"
  using code_block_fenced [OF assms] strip_fenced by (auto simp: fence_def)

lemma walk_parts_subseq:
  "subseq (filter (\<lambda>b. int (tok b) \<le> mx) (take (length parts) (drop i code_blocks)))
     (walk_parts tok mx code_blocks i parts)"
proof (induction parts arbitrary: i)
  case Nil
  show ?case by simp
next
  case (Cons part parts)
  let ?fits = "\<lambda>b. int (tok b) \<le> mx"
  let ?A = "if strip part \<noteq> [] then semantic_split tok mx part else []"
  let ?W = "walk_parts tok mx code_blocks (Suc i) parts"
  have ih: "subseq (filter ?fits (take (length parts) (drop (Suc i) code_blocks))) ?W"
    by (rule Cons.IH)
  show ?case
  proof (cases "i < length code_blocks")
    case False
    then show ?thesis by simp
  next
    case True
    then have d: "drop i code_blocks = code_blocks ! i # drop (Suc i) code_blocks"
      by (simp add: Cons_nth_drop_Suc)
    show ?thesis
    proof (cases "?fits (code_blocks ! i)")
      case fits: True
      have "subseq (code_blocks ! i # filter ?fits (take (length parts) (drop (Suc i) code_blocks)))
              (?A @ [code_blocks ! i] @ ?W)"
        using subseq_drop_many [OF subseq_Cons2 [OF ih, of "code_blocks ! i"], of ?A] by simp
      with True fits d show ?thesis by (simp add: Let_def)
    next
      case nofit: False
      have "subseq (filter ?fits (take (length parts) (drop (Suc i) code_blocks)))
              (?A @ split_code_block tok mx (code_blocks ! i) @ ?W)"
        using ih by (intro subseq_drop_many)
      with True nofit d show ?thesis by (simp add: Let_def)
    qed
  qed
qed

lemma subseq_strip_nonempty:
  assumes "subseq xs ys" and "\<forall>x \<in> set xs. strip x = x \<and> x \<noteq> []"
  shows "subseq xs (strip_nonempty ys)"
proof -
  have "subseq (map strip (filter (\<lambda>c. strip c \<noteq> []) xs)) (strip_nonempty ys)"
    unfolding strip_nonempty_def using assms(1) by (intro subseq_map subseq_filter)
  moreover have "filter (\<lambda>c. strip c \<noteq> []) xs = xs" using assms(2) by (simp add: filter_id_conv)
  moreover have "map strip xs = xs" using assms(2) by (simp add: map_idI)
  ultimately show ?thesis by simp
qed


section \<open>Texts that are not blank\<close>

lemma dropWhile_keeps: "c \<in> set s \<Longrightarrow> \<not> P c \<Longrightarrow> c \<in> set (dropWhile P s)"
  by (induction s) auto

lemma strip_keeps: "c \<in> set s \<Longrightarrow> \<not> is_space c \<Longrightarrow> c \<in> set (strip s)"
  unfolding strip_def by (simp add: dropWhile_keeps)

lemma strip_nonempty_iff: "strip s \<noteq> [] \<longleftrightarrow> (\<exists>c \<in> set s. \<not> is_space c)"
proof
  assume "strip s \<noteq> []"
  then have "dropWhile is_space (rev (dropWhile is_space s)) \<noteq> []" by (simp add: strip_def)
  then obtain c where "c \<in> set (rev (dropWhile is_space s))" "\<not> is_space c"
    by (auto simp: dropWhile_eq_Nil_conv)
  then show "\<exists>c \<in> set s. \<not> is_space c" using set_dropWhileD by fastforce
next
  assume "\<exists>c \<in> set s. \<not> is_space c"
  then show "strip s \<noteq> []" using strip_keeps by fastforce
qed

lemma strip_nonempty_mem: "c \<in> set xs \<Longrightarrow> strip c \<noteq> [] \<Longrightarrow> strip c \<in> set (strip_nonempty xs)"
  by (auto simp: strip_nonempty_def)

lemma strip_nonempty_has_text: "x \<in> set (strip_nonempty xs) \<Longrightarrow> \<exists>c \<in> set x. \<not> is_space c"
  using strip_keeps by (fastforce simp: strip_nonempty_def strip_nonempty_iff)

lemma re_scan_chars:
  "set s = (\<Union>(u, d) \<in> set (fst (re_scan m prev s)). set u \<union> set d) \<union> set (snd (re_scan m prev s))"
proof -
  have "set s = set (concat (map (\<lambda>(u, d). u @ d) (fst (re_scan m prev s))) @ snd (re_scan m prev s))"
    by (simp only: re_scan_concat)
  then show ?thesis by auto
qed

lemma sentence_delims_blank:
  assumes "d \<in> snd ` set (fst (re_scan sentence_matcher prev s))" and "c \<in> set d"
  shows "is_space c"
proof -
  from re_scan_matches [OF assms(1)] obtain prev' s' n where
    m: "sentence_matcher prev' s' = Some n" and d: "d = take n s'" by blast
  have "sentence_matcher prev' s' = None \<or>
        sentence_matcher prev' s' = Some (length (takeWhile is_space s'))"
    unfolding sentence_matcher_def Let_def by presburger
  with m have "n = length (takeWhile is_space s')" by auto
  with d have "d = takeWhile is_space s'" by (simp add: takeWhile_eq_take [symmetric])
  with assms(2) show ?thesis by (auto dest: set_takeWhileD)
qed

lemma sentences_have_text:
  assumes "\<exists>c \<in> set s. \<not> is_space c"
  shows "\<exists>x \<in> set (re_split sentence_matcher s). \<exists>c \<in> set x. \<not> is_space c"
proof -
  from assms obtain c where c: "c \<in> set s" "\<not> is_space c" by blast
  from c(1) re_scan_chars [of s sentence_matcher None]
  consider u d where "(u, d) \<in> set (fst (re_scan sentence_matcher None s))" "c \<in> set u"
    | u d where "(u, d) \<in> set (fst (re_scan sentence_matcher None s))" "c \<in> set d"
    | "c \<in> set (snd (re_scan sentence_matcher None s))"
    by auto
  then show ?thesis
  proof cases
    case 1
    then have "u \<in> set (re_split sentence_matcher s)" by (force simp: re_split_def)
    with 1 c show ?thesis by blast
  next
    case 2
    then have "d \<in> snd ` set (fst (re_scan sentence_matcher None s))" by force
    from sentence_delims_blank [OF this 2(2)] c show ?thesis by simp
  next
    case 3
    then show ?thesis using c by (auto simp: re_split_def)
  qed
qed

lemma split_by_sentences_has_text:
  assumes "\<exists>c \<in> set s. \<not> is_space c"
  shows "\<exists>x \<in> set (split_by_sentences tok mx s). \<exists>c \<in> set x. \<not> is_space c"
proof -
  from sentences_have_text [OF assms] obtain x c where
    x: "x \<in> set (re_split sentence_matcher s)" and c: "c \<in> set x" "\<not> is_space c" by blast
  then have "x \<noteq> []" by auto
  with split_by_sentences_keeps [of s tok mx] x obtain y where
    y: "y \<in> set (split_by_sentences tok mx s)" "sublist x y" by blast
  from y(2) c(1) have "c \<in> set y" using set_mono_sublist by blast
  with y(1) c(2) show ?thesis by blast
qed

lemma semantic_sections_has_text:
  assumes "sec \<in> set secs" and "\<exists>c \<in> set sec. \<not> is_space c"
  shows "\<exists>x \<in> set (semantic_sections tok mx secs). \<exists>c \<in> set x. \<not> is_space c"
proof (cases "int (tok sec) \<le> mx")
  case True
  with assms(1) have "sec \<in> set (semantic_sections tok mx secs)"
    by (force simp: semantic_sections_def)
  with assms(2) show ?thesis by blast
next
  case False
  from split_by_sentences_has_text [OF assms(2), of tok mx] obtain x where
    x: "x \<in> set (split_by_sentences tok mx sec)" "\<exists>c \<in> set x. \<not> is_space c" by blast
  from x(1) False assms(1) have "x \<in> set (semantic_sections tok mx secs)"
    by (force simp: semantic_sections_def)
  with x(2) show ?thesis by blast
qed

lemma Semantic_chunk_nonempty:
  assumes "\<exists>c \<in> set content. \<not> is_space c"
  shows "Semantic_chunk tok mx content dt \<noteq> []"
proof -
  from assms obtain c where c: "c \<in> set content" "\<not> is_space c" by blast
  have "set content = set (concat (split_by_sections content))"
    by (simp only: split_by_sections_def combine_pairs_concat re_split_group_concat)
  with c(1) obtain sec where sec: "sec \<in> set (split_by_sections content)" "c \<in> set sec" by auto
  with c(2) have "\<exists>c \<in> set sec. \<not> is_space c" by blast
  from semantic_sections_has_text [OF sec(1) this, of tok mx] obtain x where
    x: "x \<in> set (semantic_sections tok mx (split_by_sections content))" "\<exists>c \<in> set x. \<not> is_space c"
    by blast
  from x(2) have "strip x \<noteq> []" by (simp add: strip_nonempty_iff)
  from strip_nonempty_mem [OF x(1) this] show ?thesis
    by (auto simp: Semantic_chunk_def)
qed


lemma is_space_nl: "is_space nl"
  by (simp add: is_space_def nl_def)

lemma set_cons_first: "\<Union>(set ` set (cons_first c ls)) = insert c (\<Union>(set ` set ls))"
  by (cases ls) auto

lemma split_lines_chars: "set s \<subseteq> insert nl (\<Union>(set ` set (split_lines s)))"
proof (induction s)
  case Nil
  show ?case by simp
next
  case (Cons c cs)
  show ?case
  proof (cases "c = nl")
    case True
    with Cons show ?thesis by auto
  next
    case False
    then have "\<Union>(set ` set (split_lines (c # cs))) = insert c (\<Union>(set ` set (split_lines cs)))"
      by (simp only: split_lines.simps if_False set_cons_first)
    with Cons show ?thesis by (simp only: list.set) blast
  qed
qed

lemma lines_have_text:
  assumes "\<exists>c \<in> set s. \<not> is_space c"
  shows "\<exists>l \<in> set (split_lines s). strip l \<noteq> []"
proof -
  from assms obtain c where c: "c \<in> set s" "\<not> is_space c" by blast
  with is_space_nl have "c \<noteq> nl" by auto
  with c(1) split_lines_chars [of s] obtain l where "l \<in> set (split_lines s)" "c \<in> set l"
    by auto
  with c(2) show ?thesis by (auto simp: strip_nonempty_iff)
qed

lemma parse_lines_nonempty:
  "struct \<noteq> [] \<or> cur \<noteq> None \<or> (\<exists>l \<in> set ls. strip l \<noteq> []) \<Longrightarrow> parse_lines struct cur ls \<noteq> []"
proof (induction ls arbitrary: struct cur)
  case Nil
  then show ?case by (auto split: option.splits)
next
  case (Cons raw ls)
  show ?case
  proof (cases "strip raw = []")
    case True
    with Cons.prems have "struct \<noteq> [] \<or> cur \<noteq> None \<or> (\<exists>l \<in> set ls. strip l \<noteq> [])" by auto
    from Cons.IH [OF this] True show ?thesis by simp
  next
    case False
    show ?thesis
    proof (cases "header_match (strip raw)")
      case (Some lt)
      obtain lvl ttl where lt: "lt = (lvl, ttl)" by (cases lt)
      have "parse_lines (case cur of Some c \<Rightarrow> struct @ [c] | None \<Rightarrow> struct)
              (Some \<lparr>sec_level = lvl, sec_title = ttl, sec_content = []\<rparr>) ls \<noteq> []"
        by (rule Cons.IH) simp
      with False Some lt show ?thesis by (simp add: Let_def)
    next
      case None
      show ?thesis
      proof (cases cur)
        case (Some c)
        have "parse_lines struct (Some (append_line (strip raw) c)) ls \<noteq> []"
          by (rule Cons.IH) simp
        with False None Some show ?thesis by (simp add: Let_def)
      next
        case cn: None
        define struct' where "struct' =
          (if struct = [] \<or> sec_level (last struct) \<noteq> 0 then struct @ [introduction] else struct)"
        have "parse_lines (butlast struct' @ [append_line (strip raw) (last struct')]) None ls \<noteq> []"
          by (rule Cons.IH) simp
        with False None cn show ?thesis by (simp add: Let_def struct'_def)
      qed
    qed
  qed
qed

lemma pack_paras_nonempty:
  "acc \<noteq> [] \<or> cur \<noteq> pre \<or> ps \<noteq> [] \<Longrightarrow> prefix pre cur \<Longrightarrow> pack_paras tok mx pre acc cur ps \<noteq> []"
proof (induction ps arbitrary: acc cur)
  case Nil
  then show ?case by auto
next
  case (Cons p ps)
  from Cons.prems(2) obtain r where r: "cur = pre @ r" by (auto simp: prefix_def)
  show ?case
  proof (cases "int (tok (cur @ p @ [nl, nl])) \<le> mx")
    case True
    have "pack_paras tok mx pre acc (cur @ p @ [nl, nl]) ps \<noteq> []"
      using r by (intro Cons.IH) auto
    with True show ?thesis by (simp add: Let_def)
  next
    case False
    have "pack_paras tok mx pre (if cur \<noteq> pre then acc @ [strip cur] else acc) (pre @ p @ [nl, nl]) ps \<noteq> []"
      by (intro Cons.IH) auto
    with False show ?thesis by (simp add: Let_def)
  qed
qed

lemma split_paras_nonempty: "split_paras s \<noteq> []"
  by (induction s rule: split_paras.induct) (auto simp: neq_Nil_conv split: list.splits elim: cons_first.elims)

lemma chunk_section_nonempty: "chunk_section tok mx sec \<noteq> []"
  using pack_paras_nonempty [of "[]" "title_prefix (sec_title sec)" "title_prefix (sec_title sec)"
      "split_paras (join_nl (sec_content sec))" tok mx] split_paras_nonempty
  by (simp add: chunk_section_def Let_def)

lemma Hierarchical_chunk_nonempty:
  assumes "\<exists>c \<in> set content. \<not> is_space c"
  shows "Hierarchical_chunk tok mx content dt \<noteq> []"
proof -
  from lines_have_text [OF assms] have "parse_structure content \<noteq> []"
    unfolding parse_structure_def by (intro parse_lines_nonempty) simp
  then obtain sec secs where "parse_structure content = sec # secs" by (cases "parse_structure content") auto
  then show ?thesis using chunk_section_nonempty [of tok mx sec]
    by (simp add: Hierarchical_chunk_def)
qed


section \<open>When the code-aware chunker returns nothing\<close>

lemma walk_parts_prose:
  "part \<in> set parts \<Longrightarrow> strip part \<noteq> [] \<Longrightarrow>
     set (semantic_split tok mx part) \<subseteq> set (walk_parts tok mx code_blocks i parts)"
  by (induction parts arbitrary: i) auto

lemma walk_parts_block:
  "k < length parts \<Longrightarrow> i + k < length code_blocks \<Longrightarrow>
     set (if int (tok (code_blocks ! (i + k))) \<le> mx then [code_blocks ! (i + k)]
          else split_code_block tok mx (code_blocks ! (i + k)))
       \<subseteq> set (walk_parts tok mx code_blocks i parts)"
proof (induction parts arbitrary: i k)
  case Nil
  then show ?case by simp
next
  case (Cons part parts)
  show ?case
  proof (cases k)
    case 0
    with Cons.prems show ?thesis by (auto simp: Let_def)
  next
    case (Suc j)
    with Cons.prems have "j < length parts" "Suc i + j < length code_blocks" by auto
    from Cons.IH [OF this] Suc show ?thesis by (auto simp: Let_def)
  qed
qed

lemma backtick_wrap_fence: "CHR 0x60 \<in> set (wrap_fence x)"
  by (simp add: wrap_fence_def fence_def)

lemma pack_lines_wrapped:
  "\<forall>c \<in> set acc. CHR 0x60 \<in> set c \<Longrightarrow> \<forall>c \<in> set (pack_lines tok mx acc cur ls). CHR 0x60 \<in> set c"
proof (induction ls arbitrary: acc cur)
  case Nil
  then show ?case by (auto simp: backtick_wrap_fence)
next
  case (Cons l ls)
  let ?test = "if cur \<noteq> [] then cur @ [nl] @ l else l"
  show ?case
  proof (cases "int (tok ?test) \<le> mx")
    case True
    from Cons.IH [OF Cons.prems, of ?test] True show ?thesis by (simp add: Let_def)
  next
    case False
    have "\<forall>c \<in> set (if cur \<noteq> [] then acc @ [wrap_fence cur] else acc). CHR 0x60 \<in> set c"
      using Cons.prems by (auto simp: backtick_wrap_fence)
    from Cons.IH [OF this, of l] False show ?thesis by (simp add: Let_def)
  qed
qed

lemma pack_lines_nonempty:
  "acc \<noteq> [] \<or> cur \<noteq> [] \<or> (\<exists>l \<in> set ls. l \<noteq> []) \<Longrightarrow> pack_lines tok mx acc cur ls \<noteq> []"
proof (induction ls arbitrary: acc cur)
  case Nil
  then show ?case by auto
next
  case (Cons l ls)
  let ?test = "if cur \<noteq> [] then cur @ [nl] @ l else l"
  show ?case
  proof (cases "int (tok ?test) \<le> mx")
    case True
    have "acc \<noteq> [] \<or> ?test \<noteq> [] \<or> (\<exists>l \<in> set ls. l \<noteq> [])" using Cons.prems by auto
    from Cons.IH [OF this] True show ?thesis by (simp add: Let_def)
  next
    case False
    have "(if cur \<noteq> [] then acc @ [wrap_fence cur] else acc) \<noteq> [] \<or> l \<noteq> [] \<or> (\<exists>l \<in> set ls. l \<noteq> [])"
      using Cons.prems by auto
    from Cons.IH [OF this] False show ?thesis by (simp add: Let_def)
  qed
qed

lemma split_code_block_wrapped: "\<forall>c \<in> set (split_code_block tok mx b). CHR 0x60 \<in> set c"
  using pack_lines_wrapped [of "[]" tok mx "[]"]
  by (auto simp: split_code_block_def Let_def backtick_wrap_fence)

lemma split_code_block_nonempty: "\<not> blank_lines_only b \<Longrightarrow> split_code_block tok mx b \<noteq> []"
  using pack_lines_nonempty [of "[]" "[]" "split_lines (re_sub_del fence_marker_matcher b)" tok mx]
  by (auto simp: split_code_block_def Let_def blank_lines_only_def list_all_iff)

lemma strip_nonempty_nonempty:
  "x \<in> set xs \<Longrightarrow> c \<in> set x \<Longrightarrow> \<not> is_space c \<Longrightarrow> strip_nonempty xs \<noteq> []"
proof -
  assume x: "x \<in> set xs" and c: "c \<in> set x" "\<not> is_space c"
  from c have "strip x \<noteq> []" unfolding strip_nonempty_iff by blast
  from strip_nonempty_mem [OF x this] show ?thesis by auto
qed

lemma CodeAware_chunk_nonempty:
  assumes "\<not> blank_code_only tok mx content"
  shows "CodeAware_chunk tok mx content dt \<noteq> []"
proof -
  let ?blocks = "extract_code_blocks content"
  let ?parts = "re_split fence_matcher content"
  let ?walk = "walk_parts tok mx ?blocks 0 ?parts"
  have len: "length ?parts = Suc (length ?blocks)"
    by (simp add: re_split_def extract_code_blocks_def re_findall_def)
  from assms consider part where "part \<in> set ?parts" "strip part \<noteq> []"
    | b where "b \<in> set ?blocks" "int (tok b) \<le> mx \<or> \<not> blank_lines_only b"
    by (auto simp: blank_code_only_def list_all_iff)
  then show ?thesis
  proof cases
    case 1
    from 1(2) have "\<exists>c \<in> set part. \<not> is_space c" by (simp add: strip_nonempty_iff)
    from Semantic_chunk_nonempty [OF this, of tok mx TECHNICAL_DOC]
    obtain x where x: "x \<in> set (semantic_split tok mx part)"
      by (cases "semantic_split tok mx part") (auto simp: semantic_split_def)
    then have "\<exists>c \<in> set x. \<not> is_space c"
      unfolding semantic_split_def Semantic_chunk_def by (rule strip_nonempty_has_text)
    moreover from x walk_parts_prose [OF 1, of tok mx ?blocks 0] have "x \<in> set ?walk" by blast
    ultimately show ?thesis unfolding CodeAware_chunk_def using strip_nonempty_nonempty by blast
  next
    case 2
    from 2(1) obtain k where k: "k < length ?blocks" "b = ?blocks ! k"
      by (auto simp: in_set_conv_nth)
    let ?out = "if int (tok b) \<le> mx then [b] else split_code_block tok mx b"
    have "set (if int (tok (?blocks ! (0 + k))) \<le> mx then [?blocks ! (0 + k)]
               else split_code_block tok mx (?blocks ! (0 + k))) \<subseteq> set ?walk"
      by (rule walk_parts_block) (use k len in simp_all)
    then have sub: "set ?out \<subseteq> set ?walk" unfolding k(2) by (simp only: add_0)
    have "\<exists>x \<in> set ?out. CHR 0x60 \<in> set x"
    proof (cases "int (tok b) \<le> mx")
      case True
      from code_block_fenced [OF 2(1)] have "CHR 0x60 \<in> set b" by (auto simp: fence_def)
      with True show ?thesis by simp
    next
      case False
      with 2(2) have "split_code_block tok mx b \<noteq> []" by (simp add: split_code_block_nonempty)
      then obtain x where "x \<in> set (split_code_block tok mx b)"
        by (cases "split_code_block tok mx b") auto
      with split_code_block_wrapped [of tok mx b] False show ?thesis by auto
    qed
    with sub obtain x where "x \<in> set ?walk" "CHR 0x60 \<in> set x" by blast
    then show ?thesis unfolding CodeAware_chunk_def
      using strip_nonempty_nonempty not_space_backtick by blast
  qed
qed


lemma nl_not_backtick: "nl \<noteq> CHR 0x60"
  by (simp add: nl_def)

lemma startswith_fence_nl: "\<not> startswith fence (nl # s)"
  by (simp add: startswith_def fence_def nl_not_backtick)

lemma find_fence_newlines: "find_fence (replicate n nl @ fence) = Some n"
proof (induction n)
  case 0
  show ?case by (simp add: fence_def startswith_def)
next
  case (Suc n)
  then show ?case by (simp add: startswith_fence_nl)
qed

lemma re_scan_fence_newlines:
  "re_scan fence_matcher None (fence @ replicate n nl @ fence)
     = ([([], fence @ replicate n nl @ fence)], [])"
proof -
  let ?cs = "[CHR 0x60, CHR 0x60] @ replicate n nl @ fence"
  have doc: "fence @ replicate n nl @ fence = CHR 0x60 # ?cs" by (simp add: fence_def)
  have "startswith fence (CHR 0x60 # ?cs)" by (simp add: startswith_def fence_def)
  moreover have "drop 3 (CHR 0x60 # ?cs) = replicate n nl @ fence" by simp
  ultimately have m: "fence_matcher None (CHR 0x60 # ?cs) = Some (Suc (n + 5))"
    by (simp add: fence_matcher_def find_fence_newlines)
  have len: "length ?cs = n + 5" by (simp add: length_fence)
  have t: "take (Suc (n + 5)) (CHR 0x60 # ?cs) = CHR 0x60 # ?cs" using len by simp
  have d: "drop (n + 5) ?cs = []" using len by simp
  have "re_scan fence_matcher None (CHR 0x60 # ?cs) = ([([], CHR 0x60 # ?cs)], [])"
    by (subst re_scan.simps) (simp only: m t d option.case nat.case re_scan.simps prod.case)
  then show ?thesis by (simp only: doc)
qed

lemma fence_marker_at_newline: "fence_marker_matcher prev (nl # s) = None"
  by (simp add: fence_marker_matcher_def Let_def startswith_fence_nl)

lemma re_scan_marker_newlines:
  "re_scan fence_marker_matcher prev (replicate k nl @ fence) = ([(replicate k nl, fence)], [])"
proof (induction k arbitrary: prev)
  case 0
  have "fence_marker_matcher prev fence = Some (Suc 2)"
    by (simp add: fence_marker_matcher_def Let_def startswith_def fence_def rest_of_line_def)
  then show ?case by (simp add: fence_def)
next
  case (Suc k)
  then show ?case by (simp add: fence_marker_at_newline)
qed

lemma re_sub_del_newlines:
  "re_sub_del fence_marker_matcher (fence @ replicate (Suc n) nl @ fence) = replicate n nl"
proof -
  let ?cs = "[CHR 0x60, CHR 0x60] @ replicate (Suc n) nl @ fence"
  have doc: "fence @ replicate (Suc n) nl @ fence = CHR 0x60 # ?cs" by (simp add: fence_def)
  have m: "fence_marker_matcher None (CHR 0x60 # ?cs) = Some (Suc 3)"
    by (simp add: fence_marker_matcher_def Let_def at_line_start_def startswith_def fence_def
        rest_of_line_def)
  have d: "drop 3 ?cs = replicate n nl @ fence" by simp
  have "re_scan fence_marker_matcher None (CHR 0x60 # ?cs)
          = ([([], take (Suc 3) (CHR 0x60 # ?cs)), (replicate n nl, fence)], [])"
    by (subst re_scan.simps)
      (simp only: m d option.case nat.case re_scan_marker_newlines prod.case)
  then show ?thesis unfolding re_sub_del_def doc by simp
qed

lemma decl_matcher_at_newline:
  "kw \<noteq> [] \<Longrightarrow> hd kw \<noteq> nl \<Longrightarrow> decl_matcher kw prev (nl # s) = None"
  by (cases kw) (auto simp: decl_matcher_def Let_def startswith_def)

lemma re_scan_no_match:
  "(\<And>prev s. m prev (nl # s) = None) \<Longrightarrow> re_scan m prev (replicate k nl) = ([], replicate k nl)"
  by (induction k arbitrary: prev) simp_all

lemma first_matches_newlines:
  "\<forall>kw \<in> set kws. kw \<noteq> [] \<and> hd kw \<noteq> nl \<Longrightarrow> first_matches kws (replicate k nl) = []"
proof (induction kws)
  case Nil
  show ?case by simp
next
  case (Cons kw kws)
  then have "re_scan (decl_matcher kw) None (replicate k nl) = ([], replicate k nl)"
    by (intro re_scan_no_match decl_matcher_at_newline) auto
  with Cons show ?case by (simp add: re_findall_def Let_def)
qed

lemma split_lines_newlines: "split_lines (replicate k nl) = replicate (Suc k) []"
  by (induction k) simp_all

lemma pack_lines_empty_lines: "pack_lines tok mx [] [] (replicate j []) = []"
  by (induction j) (simp_all add: Let_def)

lemma all_lines_empty:
  "list_all (\<lambda>l. l = []) (split_lines s) \<Longrightarrow> s = replicate (length s) nl"
proof (induction s)
  case Nil
  show ?case by simp
next
  case (Cons c cs)
  show ?case
  proof (cases "c = nl")
    case True
    with Cons show ?thesis by simp
  next
    case False
    with Cons.prems show ?thesis by (cases "split_lines cs") simp_all
  qed
qed

lemma split_code_block_blank:
  assumes "blank_lines_only b"
  shows "split_code_block tok mx b = []"
proof -
  define k where "k = length (re_sub_del fence_marker_matcher b)"
  from assms have c: "re_sub_del fence_marker_matcher b = replicate k nl"
    unfolding blank_lines_only_def k_def by (rule all_lines_empty)
  have "first_matches [''def'', ''class'', ''function'', ''public''] (replicate k nl) = []"
    by (rule first_matches_newlines) (simp add: nl_def)
  then show ?thesis
    by (simp add: split_code_block_def Let_def c split_lines_newlines pack_lines_empty_lines)
qed

lemma walk_parts_blank:
  "list_all (\<lambda>part. strip part = []) parts \<Longrightarrow>
   list_all (\<lambda>b. \<not> int (tok b) \<le> mx \<and> blank_lines_only b) code_blocks \<Longrightarrow>
   walk_parts tok mx code_blocks i parts = []"
proof (induction parts arbitrary: i)
  case Nil
  show ?case by simp
next
  case (Cons part parts)
  from Cons.prems(2) have "i < length code_blocks \<Longrightarrow>
      \<not> int (tok (code_blocks ! i)) \<le> mx \<and> split_code_block tok mx (code_blocks ! i) = []"
    by (simp add: list_all_length split_code_block_blank)
  with Cons show ?case by (simp add: Let_def)
qed

lemma CodeAware_chunk_blank:
  "blank_code_only tok mx content \<Longrightarrow> CodeAware_chunk tok mx content dt = []"
  by (simp add: CodeAware_chunk_def blank_code_only_def walk_parts_blank strip_nonempty_def)

lemma CodeAware_chunk_empty_iff:
  "CodeAware_chunk tok mx content dt = [] \<longleftrightarrow> blank_code_only tok mx content"
  using CodeAware_chunk_blank CodeAware_chunk_nonempty by blast

lemma blank_code_only_newlines:
  assumes "\<not> int (tok (fence @ replicate (Suc n) nl @ fence)) \<le> mx"
  shows "blank_code_only tok mx (fence @ replicate (Suc n) nl @ fence)"
  using assms
  by (simp del: replicate_Suc
      add: blank_code_only_def re_split_def extract_code_blocks_def re_findall_def
      re_scan_fence_newlines strip_Nil blank_lines_only_def re_sub_del_newlines
      split_lines_newlines list_all_iff)


section \<open>Claims\<close>

text \<open>
  C10. The sections returned by \<open>_split_by_sections\<close>, concatenated in order, are the
  original content: section splitting loses no text and duplicates none.
\<close>

theorem split_by_sections_concat: "concat (split_by_sections content) = content"
  by (simp add: split_by_sections_def combine_pairs_concat re_split_group_concat)

text \<open>
  C1. The result of \<open>process_document\<close> has as many metadata entries as chunks,
  \<open>total_chunks\<close> is that number, and the entry at position \<open>i\<close> has \<open>chunk_index\<close>
  \<open>i\<close>.
\<close>

theorem process_document_metadata_parallel:
  "length (chunks (process_document tok md5_hex now content filename doc_id))
     = length (metadata (process_document tok md5_hex now content filename doc_id)) \<and>
   length (metadata (process_document tok md5_hex now content filename doc_id))
     = total_chunks (process_document tok md5_hex now content filename doc_id) \<and>
   (\<forall>i < total_chunks (process_document tok md5_hex now content filename doc_id).
      meta_chunk_index (metadata (process_document tok md5_hex now content filename doc_id) ! i) = i)"
  by (simp add: process_document_def Let_def nth_enumerate_eq)

theorem process_document_metadata_parallel_witness:
  "(1::nat) < total_chunks (process_document char_tokens sample_md5 ''t0''
       ''# A\<newline>x\<newline># B'' ''guide.md'' None)
   \<and> meta_chunk_index (metadata (process_document char_tokens sample_md5 ''t0''
       ''# A\<newline>x\<newline># B'' ''guide.md'' None) ! 1) = 1"
proof -
  have h: "(1::nat) < total_chunks (process_document char_tokens sample_md5 ''t0''
       ''# A\<newline>x\<newline># B'' ''guide.md'' None)"
    by code_simp
  with process_document_metadata_parallel [of char_tokens sample_md5 "''t0''"
       "''# A\<newline>x\<newline># B''" "''guide.md''" None]
  show ?thesis by blast
qed

text \<open>
  C3. \<open>_split_by_sections\<close> is to join each header with the text that follows it. On
  a text with two headers it joins the text after the first header with the second
  header instead: the first header stands alone, and the body of the second header is
  a section without header.
\<close>

theorem split_by_sections_joins_preceding_text:
  "split_by_sections ''# A\<newline>x\<newline># B\<newline>y'' = [''# A'', ''\<newline>x\<newline># B'', ''\<newline>y'']"
  by code_simp

text \<open>
  C4. \<open>process_document\<close> has no check of its input and raises no error of its
  own: on the empty string it returns a result with no chunk, no metadata entry and
  \<open>total_chunks\<close> zero, for every tokenizer, file name and document id.
\<close>

theorem process_document_empty_no_chunks:
  "chunks (process_document tok md5_hex now [] filename doc_id) = [] \<and>
   metadata (process_document tok md5_hex now [] filename doc_id) = [] \<and>
   total_chunks (process_document tok md5_hex now [] filename doc_id) = 0 \<and>
   processing_timestamp (process_document tok md5_hex now [] filename doc_id) = now"
  by (simp add: process_document_def Let_def chunkers_empty enumerate_eq_zip)

text \<open>
  C4, the run on the empty string with one token for each character: a result is
  returned, and it has no chunk.
\<close>

theorem process_document_empty_counterexample:
  "process_document char_tokens sample_md5 ''t0'' [] [] None =
     \<lparr>result_document_id = ''d41d8cd9'', result_document_type = ''unknown'',
      chunking_strategy = ''semantic'', chunks = [], metadata = [],
      total_chunks = 0, processing_timestamp = ''t0''\<rparr>"
  by code_simp

text \<open>
  C8. A document id that the caller supplies (a string that is not empty: Python's
  \<open>not doc_id\<close> reads the empty string as no id) is the id of the result. Without
  one, the id is the first 8 characters of the hexadecimal digest of the content, so
  two calls on the same content without id give the same id, whatever the file name
  and the time.
\<close>

theorem process_document_document_id:
  "(doc_id = Some d \<and> d \<noteq> [] \<longrightarrow>
      result_document_id (process_document tok md5_hex now content filename doc_id) = d) \<and>
   (doc_id = None \<or> doc_id = Some [] \<longrightarrow>
      result_document_id (process_document tok md5_hex now content filename doc_id)
        = take 8 (md5_hex content)) \<and>
   result_document_id (process_document tok md5_hex now content filename None)
     = result_document_id (process_document tok' md5_hex now' content filename' None)"
  by (auto simp add: process_document_def Let_def)

theorem process_document_document_id_witness:
  "Some ''doc-1'' = Some ''doc-1'' \<and> ''doc-1'' \<noteq> [] \<and>
   result_document_id (process_document char_tokens sample_md5 ''t0'' ''x'' ''a.py'' (Some ''doc-1''))
     = ''doc-1'' \<and>
   result_document_id (process_document char_tokens sample_md5 ''t0'' ''x'' ''a.py'' None)
     = take 8 (sample_md5 ''x'')"
  using process_document_document_id [where doc_id = "Some ''doc-1''" and d = "''doc-1''"
      and tok = char_tokens and md5_hex = sample_md5 and now = "''t0''" and content = "''x''"
      and filename = "''a.py''"]
    process_document_document_id [where doc_id = None and tok = char_tokens
      and md5_hex = sample_md5 and now = "''t0''" and content = "''x''" and filename = "''a.py''"]
  by simp

text \<open>
  C9. A section that fits the budget is returned as the title line, a blank line and
  the body, without stripping: for a document that is a single header the hierarchical
  chunker returns the title prefix with its two newlines.
\<close>

theorem Hierarchical_chunk_header_only_not_stripped:
  "Hierarchical_chunk char_tokens 512 ''# T'' TUTORIAL = [''# T\<newline>\<newline>''] \<and>
   strip ''# T\<newline>\<newline>'' = ''# T''"
  by code_simp





text \<open>
  C2. The fenced blocks within the budget are chunks of the code-aware chunker as they
  are, fences included, each on its own and in the order of the document. (A fenced
  block over the budget is split by \<open>_split_code_block\<close> into several chunks.)
\<close>

theorem code_blocks_within_budget_kept:
  "subseq (filter (\<lambda>b. int (tok b) \<le> mx) (extract_code_blocks content))
     (CodeAware_chunk tok mx content doc_type)"
proof -
  have len: "length (re_split fence_matcher content) = Suc (length (extract_code_blocks content))"
    by (simp add: re_split_def extract_code_blocks_def re_findall_def)
  have "subseq (filter (\<lambda>b. int (tok b) \<le> mx)
           (take (length (re_split fence_matcher content)) (drop 0 (extract_code_blocks content))))
          (walk_parts tok mx (extract_code_blocks content) 0 (re_split fence_matcher content))"
    by (rule walk_parts_subseq)
  then have "subseq (filter (\<lambda>b. int (tok b) \<le> mx) (extract_code_blocks content))
          (walk_parts tok mx (extract_code_blocks content) 0 (re_split fence_matcher content))"
    using len by simp
  then show ?thesis
    unfolding CodeAware_chunk_def
    by (rule subseq_strip_nonempty) (use code_block_strip in auto)
qed

theorem code_blocks_within_budget_kept_witness:
  "int (char_tokens (fence @ ''x=1'' @ fence)) \<le> 20 \<and>
   extract_code_blocks (''a '' @ fence @ ''x=1'' @ fence @ '' b'') = [fence @ ''x=1'' @ fence] \<and>
   subseq [fence @ ''x=1'' @ fence]
     (CodeAware_chunk char_tokens 20 (''a '' @ fence @ ''x=1'' @ fence @ '' b'') CODE)"
proof -
  have e: "extract_code_blocks (''a '' @ fence @ ''x=1'' @ fence @ '' b'') = [fence @ ''x=1'' @ fence]"
    by code_simp
  have f: "int (char_tokens (fence @ ''x=1'' @ fence)) \<le> 20"
    by code_simp
  from code_blocks_within_budget_kept [of char_tokens 20 "''a '' @ fence @ ''x=1'' @ fence @ '' b''" CODE]
  have "subseq [fence @ ''x=1'' @ fence]
     (CodeAware_chunk char_tokens 20 (''a '' @ fence @ ''x=1'' @ fence @ '' b'') CODE)"
    unfolding e using f by simp
  with e f show ?thesis by simp
qed

text \<open>
  C2, a block over the budget: with a budget of four tokens and one token for each
  character, the block with the lines \<open>ab\<close> and \<open>cd\<close> is returned as two fenced
  chunks, and neither holds \<open>ab\<close> followed by \<open>cd\<close>.
\<close>

theorem code_block_over_budget_counterexample:
  "extract_code_blocks (fence @ ''\<newline>ab\<newline>cd\<newline>'' @ fence) = [fence @ ''\<newline>ab\<newline>cd\<newline>'' @ fence] \<and>
   CodeAware_chunk char_tokens 4 (fence @ ''\<newline>ab\<newline>cd\<newline>'' @ fence) CODE
     = [fence @ ''\<newline>ab\<newline>'' @ fence, fence @ ''\<newline>cd\<newline>\<newline>'' @ fence] \<and>
   \<not> contains ''ab\<newline>cd'' (fence @ ''\<newline>ab\<newline>'' @ fence) \<and>
   \<not> contains ''ab\<newline>cd'' (fence @ ''\<newline>cd\<newline>\<newline>'' @ fence)"
  by code_simp

text \<open>
  C7. Under the semantic and the hierarchical strategy a document with a character that
  is not whitespace always gives a chunk. Under the code-aware strategy it gives none
  exactly when all the text outside the fenced blocks is blank and every fenced block
  is over the budget and has only empty lines between its fences: the line packing of
  \<open>_split_code_block\<close> skips a buffer that is empty.
\<close>

theorem process_document_at_least_one_chunk:
  assumes "\<exists>c \<in> set content. \<not> is_space c"
  shows "1 \<le> total_chunks (process_document tok md5_hex now content filename doc_id) \<longleftrightarrow>
         \<not> (chunking_strategy (process_document tok md5_hex now content filename doc_id)
               = ''code_aware'' \<and>
            blank_code_only tok 512 content)"
proof -
  let ?s = "strategy_map (classify content filename)"
  let ?out = "chunkers tok ?s content (classify content filename)"
  have code: "ChunkingStrategy_value ?s = ''code_aware'' \<longleftrightarrow> ?s = CODE_AWARE"
    by (cases ?s) simp_all
  have "?out \<noteq> [] \<longleftrightarrow> \<not> (?s = CODE_AWARE \<and> blank_code_only tok 512 content)"
  proof (cases ?s)
    case SEMANTIC
    then show ?thesis using Semantic_chunk_nonempty [OF assms] by simp
  next
    case CODE_AWARE
    then show ?thesis using CodeAware_chunk_empty_iff by simp
  next
    case HIERARCHICAL
    then show ?thesis using Hierarchical_chunk_nonempty [OF assms] by simp
  next
    case FIXED_SIZE
    then show ?thesis using Semantic_chunk_nonempty [OF assms] by simp
  qed
  moreover have "1 \<le> total_chunks (process_document tok md5_hex now content filename doc_id)
                 \<longleftrightarrow> ?out \<noteq> []"
    by (cases ?out) (simp_all add: process_document_def Let_def)
  moreover have "chunking_strategy (process_document tok md5_hex now content filename doc_id)
                 = ChunkingStrategy_value ?s"
    by (simp add: process_document_def Let_def)
  ultimately show ?thesis using code by simp
qed

theorem process_document_at_least_one_chunk_witness:
  "CHR ''x'' \<in> set ''x = 1'' \<and> \<not> is_space CHR ''x'' \<and>
   chunking_strategy (process_document char_tokens sample_md5 ''t0'' ''x = 1'' ''a.py'' None)
     = ''code_aware'' \<and>
   1 \<le> total_chunks (process_document char_tokens sample_md5 ''t0'' ''x = 1'' ''a.py'' None)"
proof -
  have h: "\<exists>c \<in> set ''x = 1''. \<not> is_space c" by code_simp
  have x: "CHR ''x'' \<in> set ''x = 1'' \<and> \<not> is_space CHR ''x''" by code_simp
  have s: "chunking_strategy (process_document char_tokens sample_md5 ''t0'' ''x = 1'' ''a.py'' None)
     = ''code_aware''" by code_simp
  have b: "\<not> blank_code_only char_tokens 512 ''x = 1''" by code_simp
  from process_document_at_least_one_chunk [OF h, of char_tokens sample_md5 "''t0''" "''a.py''" None]
    b x s
  show ?thesis by blast
qed

text \<open>
  C7, a document with no chunk: a fenced block of 510 newlines in a file named
  \<open>a.py\<close>, with one token for each character. The backticks are not whitespace.
\<close>

theorem process_document_blank_code_counterexample:
  "total_chunks (process_document char_tokens sample_md5 ''t0''
     (fence @ replicate 510 nl @ fence) ''a.py'' None) = 0 \<and>
   chunking_strategy (process_document char_tokens sample_md5 ''t0''
     (fence @ replicate 510 nl @ fence) ''a.py'' None) = ''code_aware'' \<and>
   CHR 0x60 \<in> set (fence @ replicate 510 nl @ fence) \<and> \<not> is_space (CHR 0x60)"
proof -
  have f: "filename_rule ''a.py'' = Some CODE" by code_simp
  have n: "(510::nat) = Suc 509" by simp
  have "\<not> int (char_tokens (fence @ replicate (Suc 509) nl @ fence)) \<le> 512"
    by (simp add: char_tokens_def length_fence)
  then have "blank_code_only char_tokens 512 (fence @ replicate (Suc 509) nl @ fence)"
    by (rule blank_code_only_newlines)
  then have "CodeAware_chunk char_tokens 512 (fence @ replicate 510 nl @ fence) CODE = []"
    unfolding n by (rule CodeAware_chunk_blank)
  then show ?thesis
    by (simp add: process_document_def Let_def classify_def f fence_def not_space_backtick)
qed

end
